theory Spec2Isabelle
  imports Main "HOL-Library.Multiset" "HOL-Library.Sublist"
begin

section \<open>The mailboxes of the actor runtime\<close>

text \<open>
  This theory embeds \<^verbatim>\<open>domo_actors/actors/array_mailbox.py\<close> (class ArrayMailbox) and
  \<^verbatim>\<open>domo_actors/actors/bounded_mailbox.py\<close> (class BoundedMailbox). Every method becomes
  a function that takes the state and returns the updated state. The \<^verbatim>\<open>while True\<close> loop of
  \<^verbatim>\<open>_dispatch_all\<close> contains one suspension point, \<^verbatim>\<open>await message.deliver()\<close>; the
  coroutine is therefore cut at that point: one scheduling step of the event loop runs a
  task from where it stands up to its next \<^verbatim>\<open>await\<close> or to its end, and all other calls
  (send, suspend, resume, close, dispatch) may happen between two such steps.
\<close>

subsection \<open>Data\<close>

text \<open>
  The enum OverflowPolicy is declared in \<^verbatim>\<open>mailbox.py\<close>; the three members are the ones
  \<^verbatim>\<open>_handle_overflow\<close> compares against.
\<close>

datatype overflow_policy = DROP_OLDEST | DROP_NEWEST | REJECT

text \<open>
  A dispatch task created by \<^verbatim>\<open>asyncio.create_task(self._dispatch_all())\<close> that has not
  finished yet: either it has not run at all (\<open>Created\<close>), or it is suspended in
  \<^verbatim>\<open>await message.deliver()\<close> for the message it has taken from the queue.
\<close>

datatype 'm task = Created | Awaiting 'm

text \<open>
  The first four fields are the fields of an ArrayMailbox (\<^verbatim>\<open>_queue\<close>, \<^verbatim>\<open>_closed\<close>,
  \<^verbatim>\<open>_suspended\<close>, \<^verbatim>\<open>_dispatching\<close>). The other four record, call by call and in order,
  what the methods do to the objects around the mailbox:
  \<^item> \<open>tasks\<close>: the dispatch tasks created and not finished;
  \<^item> \<open>dead_letters\<close>: the messages for which a DeadLetter record was handed to
    \<^verbatim>\<open>failed_delivery\<close>;
  \<^item> \<open>resolved\<close>: the messages whose completion was settled by \<^verbatim>\<open>deferred().resolve(None)\<close>;
  \<^item> \<open>delivered\<close>: the messages whose \<^verbatim>\<open>deliver()\<close> was called, that is, whose handler
    was invoked.
  A message is a value of the type \<open>'m\<close>.

  A BoundedMailbox has the same fields and three more, and its methods other than
  \<^verbatim>\<open>send\<close> have the same text as those of ArrayMailbox, so it is an extension of the record
  and those methods are defined once, for both.
\<close>

record 'm array_mailbox =
  queue :: "'m list"
  closed :: bool
  suspended :: bool
  dispatching :: bool
  tasks :: "'m task list"
  dead_letters :: "'m list"
  resolved :: "'m list"
  delivered :: "'m list"

record 'm bounded_mailbox = "'m array_mailbox" +
  capacity :: int
  overflow_policy :: overflow_policy
  dropped_message_count :: int

definition ArrayMailbox_init :: "'m array_mailbox" where
  "ArrayMailbox_init =
     \<lparr>queue = [], closed = False, suspended = False, dispatching = False,
      tasks = [], dead_letters = [], resolved = [], delivered = []\<rparr>"

definition BoundedMailbox_init :: "int \<Rightarrow> overflow_policy \<Rightarrow> 'm bounded_mailbox" where
  "BoundedMailbox_init c p =
     \<lparr>queue = [], closed = False, suspended = False, dispatching = False,
      tasks = [], dead_letters = [], resolved = [], delivered = [],
      capacity = c, overflow_policy = p, dropped_message_count = 0\<rparr>"

subsection \<open>Calls on the collaborators\<close>

text \<open>
  Modelled from the spec: the class Message (\<^verbatim>\<open>message.py\<close>), the dead letters of the
  stage and the event loop are not among the sources. A call of theirs is recorded in the
  state: \<^verbatim>\<open>asyncio.create_task(self._dispatch_all())\<close> adds a task,
  \<^verbatim>\<open>dead_letters().failed_delivery(DeadLetter(message.to(), message.representation()))\<close>
  adds a record for the message, \<^verbatim>\<open>message.deferred().resolve(None)\<close> settles its
  completion with null. \<^verbatim>\<open>EmptyMessage\<close>, the one message that is not deliverable, is
  \<open>None\<close> where \<^verbatim>\<open>receive\<close> returns it.
\<close>

definition create_task :: "('m, 'z) array_mailbox_scheme \<Rightarrow> ('m, 'z) array_mailbox_scheme" where
  "create_task s = s\<lparr>tasks := tasks s @ [Created]\<rparr>"

definition failed_delivery ::
  "'m \<Rightarrow> ('m, 'z) array_mailbox_scheme \<Rightarrow> ('m, 'z) array_mailbox_scheme" where
  "failed_delivery m s = s\<lparr>dead_letters := dead_letters s @ [m]\<rparr>"

definition resolve_None ::
  "'m \<Rightarrow> ('m, 'z) array_mailbox_scheme \<Rightarrow> ('m, 'z) array_mailbox_scheme" where
  "resolve_None m s = s\<lparr>resolved := resolved s @ [m]\<rparr>"

text \<open>\<^verbatim>\<open>await message.deliver()\<close>: the handler is invoked and the task waits for it.\<close>

definition await_deliver ::
  "'m \<Rightarrow> ('m, 'z) array_mailbox_scheme \<Rightarrow> ('m, 'z) array_mailbox_scheme" where
  "await_deliver m s = s\<lparr>delivered := delivered s @ [m], tasks := tasks s @ [Awaiting m]\<rparr>"

subsection \<open>The methods both classes share\<close>

definition is_receivable :: "('m, 'z) array_mailbox_scheme \<Rightarrow> bool" where
  "is_receivable s = (length (queue s) > 0)"

definition mailbox_size :: "('m, 'z) array_mailbox_scheme \<Rightarrow> nat" where
  "mailbox_size s = length (queue s)"

definition receive ::
  "('m, 'z) array_mailbox_scheme \<Rightarrow> 'm option \<times> ('m, 'z) array_mailbox_scheme" where
  "receive s = (case queue s of [] \<Rightarrow> (None, s) | m # q \<Rightarrow> (Some m, s\<lparr>queue := q\<rparr>))"

text \<open>The \<^verbatim>\<open>finally\<close> block of \<^verbatim>\<open>_dispatch_all\<close>; the task that runs it ends with it.\<close>

definition dispatch_all_finally ::
  "('m, 'z) array_mailbox_scheme \<Rightarrow> ('m, 'z) array_mailbox_scheme" where
  "dispatch_all_finally s =
     (let s1 = s\<lparr>dispatching := False\<rparr> in
      if \<not> suspended s1 \<and> \<not> closed s1 \<and> is_receivable s1
      then create_task (s1\<lparr>dispatching := True\<rparr>)
      else s1)"

text \<open>
  One pass of the \<^verbatim>\<open>while True\<close> loop of \<^verbatim>\<open>_dispatch_all\<close>, from its head to the
  \<^verbatim>\<open>await\<close> or, through a \<^verbatim>\<open>break\<close>, to the end of the \<^verbatim>\<open>finally\<close> block.
\<close>

definition dispatch_all_loop ::
  "('m, 'z) array_mailbox_scheme \<Rightarrow> ('m, 'z) array_mailbox_scheme" where
  "dispatch_all_loop s =
     (if suspended s \<or> closed s then dispatch_all_finally s
      else case receive s of
             (None, s1) \<Rightarrow> dispatch_all_finally s1
           | (Some m, s1) \<Rightarrow> await_deliver m s1)"

definition dispatch :: "('m, 'z) array_mailbox_scheme \<Rightarrow> ('m, 'z) array_mailbox_scheme" where
  "dispatch s =
     (if dispatching s then s
      else if \<not> suspended s \<and> \<not> closed s \<and> is_receivable s
      then create_task (s\<lparr>dispatching := True\<rparr>)
      else s)"

definition suspend :: "('m, 'z) array_mailbox_scheme \<Rightarrow> ('m, 'z) array_mailbox_scheme" where
  "suspend s = s\<lparr>suspended := True\<rparr>"

definition resume :: "('m, 'z) array_mailbox_scheme \<Rightarrow> ('m, 'z) array_mailbox_scheme" where
  "resume s =
     (let s1 = s\<lparr>suspended := False\<rparr> in
      if is_receivable s1 \<and> \<not> dispatching s1
      then create_task (s1\<lparr>dispatching := True\<rparr>)
      else s1)"

definition close :: "('m, 'z) array_mailbox_scheme \<Rightarrow> ('m, 'z) array_mailbox_scheme" where
  "close s = s\<lparr>closed := True\<rparr>"

subsection \<open>ArrayMailbox.send\<close>

definition ArrayMailbox_send :: "'m array_mailbox \<Rightarrow> 'm \<Rightarrow> 'm array_mailbox" where
  "ArrayMailbox_send s m =
     (if \<not> closed s then
        (let s1 = s\<lparr>queue := queue s @ [m]\<rparr> in
         if \<not> suspended s1 \<and> \<not> dispatching s1
         then create_task (s1\<lparr>dispatching := True\<rparr>)
         else s1)
      else resolve_None m (failed_delivery m s))"

subsection \<open>BoundedMailbox.send\<close>

definition notify_dropped :: "'m bounded_mailbox \<Rightarrow> 'm \<Rightarrow> 'm bounded_mailbox" where
  "notify_dropped s m =
     resolve_None m (s\<lparr>dropped_message_count := dropped_message_count s + 1\<rparr>)"

definition handle_overflow :: "'m bounded_mailbox \<Rightarrow> 'm \<Rightarrow> 'm bounded_mailbox" where
  "handle_overflow s new_message =
     (case overflow_policy s of
        DROP_OLDEST \<Rightarrow>
          (case queue s of
             dropped # q \<Rightarrow>
               (let s1 = notify_dropped (s\<lparr>queue := q\<rparr>) dropped
                in s1\<lparr>queue := queue s1 @ [new_message]\<rparr>)
           | [] \<Rightarrow> s\<lparr>queue := queue s @ [new_message]\<rparr>)
      | DROP_NEWEST \<Rightarrow> notify_dropped s new_message
      | REJECT \<Rightarrow>
          (let s1 = resolve_None new_message (failed_delivery new_message s)
           in s1\<lparr>dropped_message_count := dropped_message_count s1 + 1\<rparr>))"

definition is_full :: "'m bounded_mailbox \<Rightarrow> bool" where
  "is_full s = (int (length (queue s)) \<ge> capacity s)"

definition BoundedMailbox_send :: "'m bounded_mailbox \<Rightarrow> 'm \<Rightarrow> 'm bounded_mailbox" where
  "BoundedMailbox_send s m =
     (if closed s then resolve_None m (failed_delivery m s)
      else if int (length (queue s)) \<ge> capacity s then handle_overflow s m
      else
        (let s1 = s\<lparr>queue := queue s @ [m]\<rparr> in
         if \<not> suspended s1 \<and> \<not> dispatching s1
         then create_task (s1\<lparr>dispatching := True\<rparr>)
         else s1))"

subsection \<open>Runs\<close>

text \<open>
  What can happen to a mailbox, one atomic step each (the event loop is single-threaded
  and the methods other than \<^verbatim>\<open>_dispatch_all\<close> do not await):
  \<^item> \<open>Send m\<close>, \<open>Suspend\<close>, \<open>Resume\<close>, \<open>Close\<close>, \<open>Dispatch\<close>: a call of the method;
  \<^item> \<open>Run i\<close>: the event loop runs the \<open>i\<close>-th pending dispatch task: a created task
    starts at the head of the loop, a task awaiting \<^verbatim>\<open>deliver()\<close> goes on after it
    (the handler has returned) with the next pass of the loop;
  \<^item> \<open>Raise i\<close>: the \<^verbatim>\<open>deliver()\<close> the \<open>i\<close>-th task awaits raises (an exception or a
    cancellation), which takes the task to its \<^verbatim>\<open>finally\<close> block.
  A step that names no pending task changes nothing.
\<close>

datatype 'm op = Send 'm | Suspend | Resume | Close | Dispatch | Run nat | Raise nat

definition take_task :: "nat \<Rightarrow> ('m, 'z) array_mailbox_scheme \<Rightarrow> ('m, 'z) array_mailbox_scheme" where
  "take_task i s = s\<lparr>tasks := take i (tasks s) @ drop (Suc i) (tasks s)\<rparr>"

definition run_task :: "nat \<Rightarrow> ('m, 'z) array_mailbox_scheme \<Rightarrow> ('m, 'z) array_mailbox_scheme" where
  "run_task i s =
     (if i < length (tasks s) then dispatch_all_loop (take_task i s) else s)"

definition raise_task :: "nat \<Rightarrow> ('m, 'z) array_mailbox_scheme \<Rightarrow> ('m, 'z) array_mailbox_scheme" where
  "raise_task i s =
     (if i < length (tasks s) then
        (case tasks s ! i of
           Created \<Rightarrow> s
         | Awaiting m \<Rightarrow> dispatch_all_finally (take_task i s))
      else s)"

text \<open>The step function takes the class's \<^verbatim>\<open>send\<close> as its first argument.\<close>

fun step ::
  "(('m, 'z) array_mailbox_scheme \<Rightarrow> 'm \<Rightarrow> ('m, 'z) array_mailbox_scheme) \<Rightarrow> 'm op \<Rightarrow>
   ('m, 'z) array_mailbox_scheme \<Rightarrow> ('m, 'z) array_mailbox_scheme" where
  "step sendf (Send m) s = sendf s m"
| "step sendf Suspend s = suspend s"
| "step sendf Resume s = resume s"
| "step sendf Close s = close s"
| "step sendf Dispatch s = dispatch s"
| "step sendf (Run i) s = run_task i s"
| "step sendf (Raise i) s = raise_task i s"

fun exec ::
  "(('m, 'z) array_mailbox_scheme \<Rightarrow> 'm \<Rightarrow> ('m, 'z) array_mailbox_scheme) \<Rightarrow> 'm op list \<Rightarrow>
   ('m, 'z) array_mailbox_scheme \<Rightarrow> ('m, 'z) array_mailbox_scheme" where
  "exec sendf [] s = s"
| "exec sendf (x # xs) s = exec sendf xs (step sendf x s)"

text \<open>The messages a run sends, in order.\<close>

fun sends :: "'m op list \<Rightarrow> 'm list" where
  "sends [] = []"
| "sends (Send m # xs) = m # sends xs"
| "sends (x # xs) = sends xs"

text \<open>The invariant of the dispatching flag: it is set exactly while a task exists.\<close>

definition one_worker :: "('m, 'z) array_mailbox_scheme \<Rightarrow> bool" where
  "one_worker s = (length (tasks s) = (if dispatching s then 1 else 0))"

text \<open>
  Work does not wait without a task: the flag and the tasks agree, and when the queue is
  not empty and the mailbox is neither suspended nor closed, the flag is set.
\<close>

definition busy :: "('m, 'z) array_mailbox_scheme \<Rightarrow> bool" where
  "busy s = (one_worker s \<and> (queue s = [] \<or> suspended s \<or> closed s \<or> dispatching s))"

text \<open>
  Every message sent is in one of three places: delivered, in the queue, or resolved with
  null by the mailbox.
\<close>

definition accounted :: "('m, 'z) array_mailbox_scheme \<Rightarrow> 'm multiset" where
  "accounted s = mset (delivered s) + mset (queue s) + mset (resolved s)"

text \<open>
  The order of the deliveries, for a list \<open>H\<close> of distinct messages sent so far: the
  deliveries \<open>d\<close> followed by the queue \<open>q\<close> are \<open>H\<close> without the messages \<open>r\<close> resolved
  with null.
\<close>

definition fifo_inv :: "'m list \<Rightarrow> 'm list \<Rightarrow> 'm list \<Rightarrow> 'm list \<Rightarrow> bool" where
  "fifo_inv H d q r =
     (distinct H \<and> set r \<subseteq> set H \<and> d @ q = filter (\<lambda>m. m \<notin> set r) H)"

text \<open>
  The dead letter records of a BoundedMailbox against its null completions: under REJECT
  they are the same; under the other two policies every drop counted is a null completion
  without a record.
\<close>

definition records_inv :: "'m bounded_mailbox \<Rightarrow> bool" where
  "records_inv b =
     (mset (dead_letters b) \<subseteq># mset (resolved b) \<and>
      (if overflow_policy b = REJECT then dead_letters b = resolved b
       else int (length (resolved b)) = int (length (dead_letters b)) + dropped_message_count b))"

text \<open>The runs of a new mailbox.\<close>

abbreviation array_run :: "'m op list \<Rightarrow> 'm array_mailbox" where
  "array_run xs \<equiv> exec ArrayMailbox_send xs ArrayMailbox_init"

abbreviation bounded_run :: "int \<Rightarrow> overflow_policy \<Rightarrow> 'm op list \<Rightarrow> 'm bounded_mailbox" where
  "bounded_run c p xs \<equiv> exec BoundedMailbox_send xs (BoundedMailbox_init c p)"

section \<open>Basic facts\<close>

lemmas method_defs =
  create_task_def failed_delivery_def resolve_None_def await_deliver_def is_receivable_def
  receive_def dispatch_all_finally_def dispatch_all_loop_def dispatch_def suspend_def
  resume_def close_def take_task_def run_task_def raise_task_def

lemmas send_defs =
  ArrayMailbox_send_def BoundedMailbox_send_def handle_overflow_def notify_dropped_def

lemmas eval_defs =
  method_defs send_defs ArrayMailbox_init_def BoundedMailbox_init_def Let_def

lemma exec_append: "exec sendf (xs @ ys) s = exec sendf ys (exec sendf xs s)"
  by (induction xs arbitrary: s) simp_all

lemma inv_exec:
  assumes "\<And>x s. P s \<Longrightarrow> P (step sendf x s)" and "P s"
  shows "P (exec sendf xs s)"
  using assms(2) by (induction xs arbitrary: s) (simp_all add: assms(1))

lemma sends_append: "sends (xs @ ys) = sends xs @ sends ys"
  by (induction xs rule: sends.induct) simp_all

section \<open>The dispatching flag and the dispatch tasks\<close>

lemma one_worker_suspend: "one_worker s \<Longrightarrow> one_worker (suspend s)"
  by (simp add: one_worker_def suspend_def)

lemma one_worker_close: "one_worker s \<Longrightarrow> one_worker (close s)"
  by (simp add: one_worker_def close_def)

lemma one_worker_resume: "one_worker s \<Longrightarrow> one_worker (resume s)"
  by (auto simp: one_worker_def resume_def create_task_def is_receivable_def Let_def
      split: if_splits)

lemma one_worker_dispatch: "one_worker s \<Longrightarrow> one_worker (dispatch s)"
  by (auto simp: one_worker_def dispatch_def create_task_def is_receivable_def
      split: if_splits)

lemma one_worker_finally:
  "tasks s = [] \<Longrightarrow> one_worker (dispatch_all_finally s)"
  by (simp add: one_worker_def dispatch_all_finally_def create_task_def Let_def)

lemma one_worker_loop:
  "tasks s = [] \<Longrightarrow> dispatching s \<Longrightarrow> one_worker (dispatch_all_loop s)"
  by (cases "queue s")
    (simp_all add: dispatch_all_loop_def one_worker_finally receive_def,
     simp_all add: one_worker_def await_deliver_def)

lemma one_worker_tasks:
  "one_worker s \<Longrightarrow> i < length (tasks s) \<Longrightarrow>
   i = 0 \<and> dispatching s \<and> tasks (take_task i s) = []"
  by (auto simp: one_worker_def take_task_def split: if_splits)

lemma one_worker_run: "one_worker s \<Longrightarrow> one_worker (run_task i s)"
  using one_worker_tasks [of s i]
  by (auto simp: run_task_def take_task_def intro!: one_worker_loop)

lemma one_worker_raise: "one_worker s \<Longrightarrow> one_worker (raise_task i s)"
  using one_worker_tasks [of s i]
  by (auto simp: raise_task_def intro!: one_worker_finally split: task.splits)

lemma one_worker_ArrayMailbox_send: "one_worker s \<Longrightarrow> one_worker (ArrayMailbox_send s m)"
  by (auto simp: one_worker_def ArrayMailbox_send_def create_task_def failed_delivery_def
      resolve_None_def Let_def split: if_splits)

lemma one_worker_BoundedMailbox_send: "one_worker s \<Longrightarrow> one_worker (BoundedMailbox_send s m)"
  by (auto simp: one_worker_def send_defs create_task_def failed_delivery_def
      resolve_None_def Let_def split: overflow_policy.splits list.splits if_splits)

lemma one_worker_step:
  assumes "\<And>s m. one_worker s \<Longrightarrow> one_worker (sendf s m)" and "one_worker s"
  shows "one_worker (step sendf x s)"
  using assms
  by (cases x)
    (simp_all add: one_worker_suspend one_worker_resume one_worker_close one_worker_dispatch
      one_worker_run one_worker_raise)

lemma one_worker_exec:
  assumes "\<And>s m. one_worker s \<Longrightarrow> one_worker (sendf s m)" and "one_worker s"
  shows "one_worker (exec sendf xs s)"
  using assms(2)
proof (induction xs arbitrary: s)
  case Nil
  then show ?case by simp
next
  case (Cons x xs)
  then show ?case by (simp add: one_worker_step [OF assms(1)])
qed

lemma one_worker_init:
  "one_worker ArrayMailbox_init" "one_worker (BoundedMailbox_init c p)"
  by (simp_all add: one_worker_def ArrayMailbox_init_def BoundedMailbox_init_def)

lemma one_worker_le: "one_worker s \<Longrightarrow> length (tasks s) \<le> 1"
  by (simp add: one_worker_def split: if_splits)

lemma one_worker_runs:
  "one_worker (array_run xs)" "one_worker (bounded_run c p xs)"
  by (rule one_worker_exec, rule one_worker_ArrayMailbox_send, assumption,
      rule one_worker_init)
    (rule one_worker_exec, rule one_worker_BoundedMailbox_send, assumption,
      rule one_worker_init)

text \<open>
  C1. In every state that a run of send, suspend, resume, close, dispatch and task steps
  reaches from a new ArrayMailbox or a new BoundedMailbox, at most one dispatch task
  exists, and one exists exactly when the dispatching flag is set. A call of
  \<^verbatim>\<open>send\<close>, \<^verbatim>\<open>resume\<close> or \<^verbatim>\<open>dispatch\<close>, in any state, creates either no task or
  one task, the latter only when the flag was false, and sets the flag in the same step;
  the \<^verbatim>\<open>finally\<close> block of \<^verbatim>\<open>_dispatch_all\<close> first clears the flag and then either
  leaves it cleared or creates one task and sets it.
\<close>

theorem single_dispatch_worker:
  "length (tasks (exec ArrayMailbox_send xs ArrayMailbox_init)) \<le> 1 \<and>
   one_worker (exec ArrayMailbox_send xs ArrayMailbox_init) \<and>
   length (tasks (exec BoundedMailbox_send ys (BoundedMailbox_init c p))) \<le> 1 \<and>
   one_worker (exec BoundedMailbox_send ys (BoundedMailbox_init c p)) \<and>
   (tasks (ArrayMailbox_send a m) = tasks a \<or>
    (\<not> dispatching a \<and> dispatching (ArrayMailbox_send a m) \<and>
     tasks (ArrayMailbox_send a m) = tasks a @ [Created])) \<and>
   (tasks (BoundedMailbox_send b m) = tasks b \<or>
    (\<not> dispatching b \<and> dispatching (BoundedMailbox_send b m) \<and>
     tasks (BoundedMailbox_send b m) = tasks b @ [Created])) \<and>
   (tasks (resume s) = tasks s \<or>
    (\<not> dispatching s \<and> dispatching (resume s) \<and> tasks (resume s) = tasks s @ [Created])) \<and>
   (tasks (dispatch s) = tasks s \<or>
    (\<not> dispatching s \<and> dispatching (dispatch s) \<and>
     tasks (dispatch s) = tasks s @ [Created])) \<and>
   ((tasks (dispatch_all_finally s) = tasks s \<and> \<not> dispatching (dispatch_all_finally s)) \<or>
    (dispatching (dispatch_all_finally s) \<and>
     tasks (dispatch_all_finally s) = tasks s @ [Created]))"
proof -
  have reach:
    "one_worker (exec ArrayMailbox_send xs ArrayMailbox_init)"
    "one_worker (exec BoundedMailbox_send ys (BoundedMailbox_init c p))"
    by (rule one_worker_exec, rule one_worker_ArrayMailbox_send, assumption,
        rule one_worker_init)
      (rule one_worker_exec, rule one_worker_BoundedMailbox_send, assumption,
        rule one_worker_init)
  have a: "tasks (ArrayMailbox_send a m) = tasks a \<or>
    (\<not> dispatching a \<and> dispatching (ArrayMailbox_send a m) \<and>
     tasks (ArrayMailbox_send a m) = tasks a @ [Created])"
    by (simp add: ArrayMailbox_send_def create_task_def failed_delivery_def
        resolve_None_def Let_def)
  have b: "tasks (BoundedMailbox_send b m) = tasks b \<or>
    (\<not> dispatching b \<and> dispatching (BoundedMailbox_send b m) \<and>
     tasks (BoundedMailbox_send b m) = tasks b @ [Created])"
    by (simp add: send_defs create_task_def failed_delivery_def
        resolve_None_def Let_def split: overflow_policy.splits list.splits)
  have r: "tasks (resume s) = tasks s \<or>
    (\<not> dispatching s \<and> dispatching (resume s) \<and> tasks (resume s) = tasks s @ [Created])"
    by (simp add: resume_def create_task_def Let_def)
  have d: "tasks (dispatch s) = tasks s \<or>
    (\<not> dispatching s \<and> dispatching (dispatch s) \<and>
     tasks (dispatch s) = tasks s @ [Created])"
    by (simp add: dispatch_def create_task_def)
  have f: "(tasks (dispatch_all_finally s) = tasks s \<and> \<not> dispatching (dispatch_all_finally s)) \<or>
    (dispatching (dispatch_all_finally s) \<and>
     tasks (dispatch_all_finally s) = tasks s @ [Created])"
    by (simp add: dispatch_all_finally_def create_task_def Let_def)
  from reach a b r d f show ?thesis
    by (intro conjI one_worker_le)
qed

section \<open>Closed mailboxes\<close>

lemma send_closed:
  "closed a \<Longrightarrow> ArrayMailbox_send a m = resolve_None m (failed_delivery m a)"
  "closed b \<Longrightarrow> BoundedMailbox_send b m = resolve_None m (failed_delivery m b)"
  by (simp_all add: ArrayMailbox_send_def BoundedMailbox_send_def)

lemma loop_closed: "closed s \<Longrightarrow> dispatch_all_loop s = s\<lparr>dispatching := False\<rparr>"
  by (simp add: dispatch_all_loop_def dispatch_all_finally_def Let_def)

lemma finally_closed: "closed s \<Longrightarrow> dispatch_all_finally s = s\<lparr>dispatching := False\<rparr>"
  by (simp add: dispatch_all_finally_def Let_def)

lemma step_closed:
  assumes "\<And>s m. closed s \<Longrightarrow> sendf s m = resolve_None m (failed_delivery m s)"
    and "closed s"
  shows "closed (step sendf x s) \<and> queue (step sendf x s) = queue s \<and>
         delivered (step sendf x s) = delivered s \<and>
         dead_letters (step sendf x s) = dead_letters s @ sends [x] \<and>
         resolved (step sendf x s) = resolved s @ sends [x] \<and>
         array_mailbox.more (step sendf x s) = array_mailbox.more s"
  using assms
  by (cases x)
    (auto simp: resolve_None_def failed_delivery_def suspend_def resume_def close_def
      dispatch_def create_task_def run_task_def raise_task_def take_task_def
      loop_closed finally_closed Let_def split: task.splits)

lemma exec_closed:
  assumes "\<And>s m. closed s \<Longrightarrow> sendf s m = resolve_None m (failed_delivery m s)"
    and "closed s"
  shows "closed (exec sendf xs s) \<and> queue (exec sendf xs s) = queue s \<and>
         delivered (exec sendf xs s) = delivered s \<and>
         dead_letters (exec sendf xs s) = dead_letters s @ sends xs \<and>
         resolved (exec sendf xs s) = resolved s @ sends xs \<and>
         array_mailbox.more (exec sendf xs s) = array_mailbox.more s"
  using assms(2)
proof (induction xs arbitrary: s)
  case Nil
  then show ?case by simp
next
  case (Cons x xs)
  have "sends (x # xs) = sends [x] @ sends xs"
    by (cases x) simp_all
  with Cons.IH [of "step sendf x s"] step_closed [OF assms(1) Cons.prems, of x]
  show ?case by simp
qed

lemma more_dropped: "array_mailbox.more b' = array_mailbox.more b \<Longrightarrow>
  dropped_message_count b' = dropped_message_count b \<and> capacity b' = capacity b \<and>
  overflow_policy b' = overflow_policy b"
  by (cases b, cases b') simp

text \<open>
  C4. When the mailbox is closed, \<^verbatim>\<open>send(m)\<close> of either class changes nothing but the
  dead letters, which get one record for \<open>m\<close>, and the completions, where that of \<open>m\<close>
  is resolved with null: \<open>m\<close> is not enqueued and no task is created. In every run from a
  closed mailbox the mailbox stays closed, the queue stays as it is, no handler is
  invoked, and the records and the null completions added are those of the messages
  sent, one each, in the order of the sends; so the number of records added is the
  number of sends.
\<close>

theorem closed_send_dead_letters:
  assumes "closed a" and "closed b"
  shows "ArrayMailbox_send a m =
           a\<lparr>dead_letters := dead_letters a @ [m], resolved := resolved a @ [m]\<rparr> \<and>
         BoundedMailbox_send b m =
           b\<lparr>dead_letters := dead_letters b @ [m], resolved := resolved b @ [m]\<rparr> \<and>
         closed (exec ArrayMailbox_send xs a) \<and>
         queue (exec ArrayMailbox_send xs a) = queue a \<and>
         delivered (exec ArrayMailbox_send xs a) = delivered a \<and>
         dead_letters (exec ArrayMailbox_send xs a) = dead_letters a @ sends xs \<and>
         resolved (exec ArrayMailbox_send xs a) = resolved a @ sends xs \<and>
         length (dead_letters (exec ArrayMailbox_send xs a)) =
           length (dead_letters a) + length (sends xs) \<and>
         closed (exec BoundedMailbox_send ys b) \<and>
         queue (exec BoundedMailbox_send ys b) = queue b \<and>
         delivered (exec BoundedMailbox_send ys b) = delivered b \<and>
         dead_letters (exec BoundedMailbox_send ys b) = dead_letters b @ sends ys \<and>
         resolved (exec BoundedMailbox_send ys b) = resolved b @ sends ys \<and>
         length (dead_letters (exec BoundedMailbox_send ys b)) =
           length (dead_letters b) + length (sends ys)"
  using assms exec_closed [of ArrayMailbox_send a xs, OF send_closed(1)]
    exec_closed [of BoundedMailbox_send b ys, OF send_closed(2)]
  by (simp add: send_closed resolve_None_def failed_delivery_def)

theorem closed_send_dead_letters_witness:
  "closed (close ArrayMailbox_init) \<and>
   closed (close (BoundedMailbox_init 2 REJECT)) \<and>
   dead_letters (exec ArrayMailbox_send [Send (1::nat), Run 0, Resume, Send 2, Dispatch]
      (close ArrayMailbox_init)) = [1, 2] \<and>
   delivered (exec ArrayMailbox_send [Send (1::nat), Run 0, Resume, Send 2, Dispatch]
      (close ArrayMailbox_init)) = [] \<and>
   resolved (exec BoundedMailbox_send [Send (1::nat), Run 0, Resume, Send 2, Dispatch]
      (close (BoundedMailbox_init 2 REJECT))) = [1, 2]"
  using closed_send_dead_letters [of "close ArrayMailbox_init" "close (BoundedMailbox_init 2 REJECT)" "1::nat"
      "[Send (1::nat), Run 0, Resume, Send 2, Dispatch]"
      "[Send (1::nat), Run 0, Resume, Send 2, Dispatch]"]
  by (simp add: method_defs send_defs ArrayMailbox_init_def BoundedMailbox_init_def Let_def)

text \<open>
  C10. \<^verbatim>\<open>close()\<close> sets the closed flag and changes no other field: the queue and its
  size, the suspended flag, the dispatching flag and the count of dropped messages stay.
  In every run after \<^verbatim>\<open>close()\<close> the queue is the queue at the time of the call and no
  handler is invoked; the dead letter records and the null completions that are added
  are those of the messages sent after the call, so the messages that were queued get
  neither.
\<close>

theorem close_frame:
  "close s = s\<lparr>closed := True\<rparr> \<and>
   queue (close s) = queue s \<and> mailbox_size (close s) = mailbox_size s \<and>
   suspended (close s) = suspended s \<and> dispatching (close s) = dispatching s \<and>
   dropped_message_count (close b) = dropped_message_count b \<and>
   queue (exec ArrayMailbox_send xs (close a)) = queue a \<and>
   delivered (exec ArrayMailbox_send xs (close a)) = delivered a \<and>
   dead_letters (exec ArrayMailbox_send xs (close a)) = dead_letters a @ sends xs \<and>
   resolved (exec ArrayMailbox_send xs (close a)) = resolved a @ sends xs \<and>
   queue (exec BoundedMailbox_send ys (close b)) = queue b \<and>
   delivered (exec BoundedMailbox_send ys (close b)) = delivered b \<and>
   dead_letters (exec BoundedMailbox_send ys (close b)) = dead_letters b @ sends ys \<and>
   resolved (exec BoundedMailbox_send ys (close b)) = resolved b @ sends ys \<and>
   dropped_message_count (exec BoundedMailbox_send ys (close b)) = dropped_message_count b"
proof -
  have c: "closed (close a)" "closed (close b)"
    by (simp_all add: close_def)
  have m: "dropped_message_count (exec BoundedMailbox_send ys (close b)) =
           dropped_message_count (close b)"
    using exec_closed [of BoundedMailbox_send "close b" ys, OF send_closed(2) c(2)]
      more_dropped by blast
  show ?thesis
    using exec_closed [of ArrayMailbox_send "close a" xs, OF send_closed(1) c(1)]
      exec_closed [of BoundedMailbox_send "close b" ys, OF send_closed(2) c(2)] m
    by (simp add: close_def mailbox_size_def)
qed

section \<open>Overflow of a BoundedMailbox\<close>

text \<open>
  C7 speaks of every BoundedMailbox with DROP_OLDEST whose queue is at capacity. A
  BoundedMailbox with capacity 0 and the policy DROP_OLDEST is at capacity when it is
  new: \<^verbatim>\<open>is_full()\<close> holds and the size equals the capacity. Its queue has no head, and
  \<^verbatim>\<open>_handle_overflow\<close> has a branch for that: \<^verbatim>\<open>send(m)\<close> appends \<open>m\<close>, evicts nothing,
  settles no completion and leaves the count of dropped messages at 0.
\<close>

theorem drop_oldest_empty_counterexample:
  "\<not> closed (BoundedMailbox_init 0 DROP_OLDEST :: nat bounded_mailbox) \<and>
   is_full (BoundedMailbox_init 0 DROP_OLDEST :: nat bounded_mailbox) \<and>
   int (length (queue (BoundedMailbox_init 0 DROP_OLDEST :: nat bounded_mailbox))) =
     capacity (BoundedMailbox_init 0 DROP_OLDEST :: nat bounded_mailbox) \<and>
   BoundedMailbox_send (BoundedMailbox_init 0 DROP_OLDEST) (1::nat) =
     (BoundedMailbox_init 0 DROP_OLDEST)\<lparr>queue := [1]\<rparr> \<and>
   dropped_message_count (BoundedMailbox_send (BoundedMailbox_init 0 DROP_OLDEST) (1::nat)) = 0 \<and>
   resolved (BoundedMailbox_send (BoundedMailbox_init 0 DROP_OLDEST) (1::nat)) = []"
  by (simp add: eval_defs is_full_def)

text \<open>
  C7, amended. When the mailbox is not closed, the policy is DROP_OLDEST, the queue is
  at capacity and it is not empty (as it is whenever the capacity is at least 1),
  \<^verbatim>\<open>send(m)\<close> removes the head of the queue, resolves the completion of the removed
  message with null, adds 1 to the count of dropped messages and appends \<open>m\<close> at the
  tail; nothing else changes. When the queue is at capacity and empty, it appends \<open>m\<close>
  and changes nothing else. With capacity 3, after suspend and the sends of five messages
  the queue holds the last three and the count is 2; after resume and the steps of the
  dispatch task the deliveries are the third, fourth and fifth message, in this order,
  the count is 2, and the queue and the task list are empty.
\<close>

theorem drop_oldest_overflow:
  "(\<not> closed b \<and> overflow_policy b = DROP_OLDEST \<and> capacity b \<le> int (length (queue b)) \<and>
    queue b = h # q \<longrightarrow>
    BoundedMailbox_send b m =
      b\<lparr>queue := q @ [m], resolved := resolved b @ [h],
        dropped_message_count := dropped_message_count b + 1\<rparr>) \<and>
   (\<not> closed b \<and> overflow_policy b = DROP_OLDEST \<and> capacity b \<le> int (length (queue b)) \<and>
    queue b = [] \<longrightarrow>
    BoundedMailbox_send b m = b\<lparr>queue := [m]\<rparr>) \<and>
   queue (exec BoundedMailbox_send
      [Suspend, Send m1, Send m2, Send m3, Send m4, Send m5]
      (BoundedMailbox_init 3 DROP_OLDEST)) = [m3, m4, m5] \<and>
   dropped_message_count (exec BoundedMailbox_send
      [Suspend, Send m1, Send m2, Send m3, Send m4, Send m5]
      (BoundedMailbox_init 3 DROP_OLDEST)) = 2 \<and>
   exec BoundedMailbox_send
      [Suspend, Send m1, Send m2, Send m3, Send m4, Send m5, Resume, Run 0, Run 0, Run 0, Run 0]
      (BoundedMailbox_init 3 DROP_OLDEST) =
     (BoundedMailbox_init 3 DROP_OLDEST)
       \<lparr>delivered := [m3, m4, m5], resolved := [m1, m2], dropped_message_count := 2\<rparr>"
  (is "(?P \<longrightarrow> ?Q) \<and> (?P' \<longrightarrow> ?Q') \<and> ?S1 \<and> ?S2 \<and> ?S3")
proof -
  have g: ?Q if ?P
    using that by (auto simp: send_defs resolve_None_def Let_def)
  have g': ?Q' if ?P'
    using that by (auto simp: send_defs resolve_None_def Let_def)
  have s: ?S1 ?S2 ?S3
    by (simp_all add: eval_defs)
  from g g' s show ?thesis
    by blast
qed

theorem drop_oldest_overflow_witness:
  "\<not> closed (exec BoundedMailbox_send [Send (1::nat)] (BoundedMailbox_init 1 DROP_OLDEST)) \<and>
   overflow_policy (exec BoundedMailbox_send [Send (1::nat)] (BoundedMailbox_init 1 DROP_OLDEST))
     = DROP_OLDEST \<and>
   capacity (exec BoundedMailbox_send [Send (1::nat)] (BoundedMailbox_init 1 DROP_OLDEST))
     \<le> int (length (queue
       (exec BoundedMailbox_send [Send (1::nat)] (BoundedMailbox_init 1 DROP_OLDEST)))) \<and>
   queue (exec BoundedMailbox_send [Send (1::nat)] (BoundedMailbox_init 1 DROP_OLDEST)) = 1 # [] \<and>
   queue (BoundedMailbox_send
     (exec BoundedMailbox_send [Send (1::nat)] (BoundedMailbox_init 1 DROP_OLDEST)) 2) = [2] \<and>
   resolved (BoundedMailbox_send
     (exec BoundedMailbox_send [Send (1::nat)] (BoundedMailbox_init 1 DROP_OLDEST)) 2) = [1] \<and>
   dropped_message_count (BoundedMailbox_send
     (exec BoundedMailbox_send [Send (1::nat)] (BoundedMailbox_init 1 DROP_OLDEST)) 2) = 1"
  using drop_oldest_overflow [of "exec BoundedMailbox_send [Send (1::nat)] (BoundedMailbox_init 1 DROP_OLDEST)"
      1 "[]" 2]
  by (simp add: eval_defs)



subsection \<open>The size of a BoundedMailbox\<close>

lemma step_capacity: "capacity (step BoundedMailbox_send x b) = capacity b"
  by (cases x)
    (auto simp: eval_defs split: overflow_policy.splits list.splits task.splits)

lemma step_size:
  "int (length (queue b)) \<le> max (capacity b) 1 \<Longrightarrow>
   int (length (queue (step BoundedMailbox_send x b))) \<le> max (capacity b) 1"
  by (cases x)
    (auto simp: eval_defs split: overflow_policy.splits list.splits task.splits)

lemma exec_size:
  "int (length (queue b)) \<le> max (capacity b) 1 \<Longrightarrow>
   int (length (queue (exec BoundedMailbox_send xs b))) \<le> max (capacity b) 1 \<and>
   capacity (exec BoundedMailbox_send xs b) = capacity b"
proof (induction xs arbitrary: b)
  case Nil
  then show ?case by simp
next
  case (Cons x xs)
  from Cons.IH [of "step BoundedMailbox_send x b"] step_size [OF Cons.prems, of x]
  show ?case by (simp add: step_capacity)
qed

text \<open>
  C9. Every step (a send under any policy, suspend, resume, close, dispatch, a step of a
  dispatch task) keeps the capacity and keeps the size of the queue at most
  \<open>max capacity 1\<close>, which is the capacity when that is at least 1. So the size of a
  BoundedMailbox created with capacity \<open>c\<close> is at most \<open>max c 1\<close> in every run, and at
  most \<open>c\<close> when \<open>c \<ge> 1\<close>. With capacity 0 and DROP_OLDEST, a send on the new mailbox
  appends: the size is 1.
\<close>

theorem size_bound:
  "(int (mailbox_size b) \<le> max (capacity b) 1 \<longrightarrow>
    int (mailbox_size (step BoundedMailbox_send x b)) \<le> max (capacity b) 1 \<and>
    capacity (step BoundedMailbox_send x b) = capacity b) \<and>
   (1 \<le> capacity b \<and> int (mailbox_size b) \<le> capacity b \<longrightarrow>
    int (mailbox_size (step BoundedMailbox_send x b)) \<le> capacity b) \<and>
   int (mailbox_size (exec BoundedMailbox_send xs (BoundedMailbox_init c p))) \<le> max c 1 \<and>
   (1 \<le> c \<longrightarrow> int (mailbox_size (exec BoundedMailbox_send xs (BoundedMailbox_init c p))) \<le> c) \<and>
   mailbox_size (BoundedMailbox_send (BoundedMailbox_init 0 DROP_OLDEST) m) = 1"
proof -
  have i: "int (length (queue (BoundedMailbox_init c p))) \<le> max (capacity (BoundedMailbox_init c p)) 1"
    by (simp add: BoundedMailbox_init_def)
  have r: "int (mailbox_size (exec BoundedMailbox_send xs (BoundedMailbox_init c p))) \<le> max c 1"
    using exec_size [OF i, of xs] by (simp add: mailbox_size_def BoundedMailbox_init_def)
  have z: "mailbox_size (BoundedMailbox_send (BoundedMailbox_init 0 DROP_OLDEST) m) = 1"
    by (simp add: eval_defs mailbox_size_def)
  show ?thesis
    using r z step_size [of b x] step_capacity [of x b]
    by (auto simp: mailbox_size_def)
qed

theorem size_bound_witness:
  "int (mailbox_size (exec BoundedMailbox_send [Suspend, Send (1::nat), Send 2]
      (BoundedMailbox_init 2 DROP_OLDEST))) \<le>
     max (capacity (exec BoundedMailbox_send [Suspend, Send (1::nat), Send 2]
      (BoundedMailbox_init 2 DROP_OLDEST))) 1 \<and>
   1 \<le> capacity (exec BoundedMailbox_send [Suspend, Send (1::nat), Send 2]
      (BoundedMailbox_init 2 DROP_OLDEST)) \<and>
   int (mailbox_size (exec BoundedMailbox_send [Suspend, Send (1::nat), Send 2]
      (BoundedMailbox_init 2 DROP_OLDEST))) \<le>
     capacity (exec BoundedMailbox_send [Suspend, Send (1::nat), Send 2]
      (BoundedMailbox_init 2 DROP_OLDEST)) \<and>
   int (mailbox_size (step BoundedMailbox_send (Send 3)
     (exec BoundedMailbox_send [Suspend, Send (1::nat), Send 2]
      (BoundedMailbox_init 2 DROP_OLDEST)))) \<le> 2 \<and>
   (1::int) \<le> 2 \<and>
   int (mailbox_size (exec BoundedMailbox_send [Suspend, Send (1::nat), Send 2, Send 3]
     (BoundedMailbox_init 2 DROP_OLDEST))) \<le> 2"
  using size_bound [of "exec BoundedMailbox_send [Suspend, Send (1::nat), Send 2]
      (BoundedMailbox_init 2 DROP_OLDEST)" "Send 3" "[Suspend, Send (1::nat), Send 2, Send 3]"
      2 DROP_OLDEST]
  by (simp add: eval_defs mailbox_size_def)

section \<open>The order of the deliveries\<close>

lemma filter_evict:
  assumes "distinct H" and "d @ h # t = filter (\<lambda>x. x \<notin> R) H"
  shows "d @ t = filter (\<lambda>x. x \<notin> insert h R) H"
proof -
  have dist: "distinct (d @ h # t)"
    using assms by simp
  have "filter (\<lambda>x. x \<noteq> h) d = d" "filter (\<lambda>x. x \<noteq> h) t = t"
    using dist by (auto simp: filter_id_conv)
  then have "filter (\<lambda>x. x \<noteq> h) (d @ h # t) = d @ t"
    by simp
  then have "d @ t = filter (\<lambda>x. x \<noteq> h) (filter (\<lambda>x. x \<notin> R) H)"
    using assms(2) by simp
  also have "\<dots> = filter (\<lambda>x. x \<notin> insert h R) H"
    by (simp add: conj_commute)
  finally show ?thesis .
qed

lemma fifo_inv_sub: "fifo_inv H d q r \<Longrightarrow> set d \<union> set q \<subseteq> set H"
proof -
  assume "fifo_inv H d q r"
  then have "set (d @ q) \<subseteq> set H"
    unfolding fifo_inv_def by (metis filter_is_subset)
  then show ?thesis by simp
qed

lemma fifo_append:
  "fifo_inv H d q r \<Longrightarrow> m \<notin> set H \<Longrightarrow> fifo_inv (H @ [m]) d (q @ [m]) r"
  by (auto simp: fifo_inv_def)

lemma fifo_resolve:
  assumes "fifo_inv H d q r" and "m \<notin> set H"
  shows "fifo_inv (H @ [m]) d q (r @ [m])"
proof -
  have "filter (\<lambda>x. x \<noteq> m \<and> x \<notin> set r) H = filter (\<lambda>x. x \<notin> set r) H"
    using assms(2) by (intro filter_cong) auto
  with assms show ?thesis
    by (auto simp: fifo_inv_def)
qed

lemma fifo_evict:
  assumes "fifo_inv H d (h # t) r"
  shows "fifo_inv H d t (r @ [h])"
proof -
  from assms have eq: "d @ h # t = filter (\<lambda>x. x \<notin> set r) H"
    and dist: "distinct H" and sub: "set r \<subseteq> set H"
    by (simp_all add: fifo_inv_def)
  have "h \<in> set H"
    using fifo_inv_sub [OF assms] by simp
  with filter_evict [OF dist eq] dist sub show ?thesis
    by (simp add: fifo_inv_def)
qed

lemma fifo_pop: "fifo_inv H d (h # t) r \<Longrightarrow> fifo_inv H (d @ [h]) t r"
  by (simp add: fifo_inv_def)

lemma fifo_evict_append:
  "fifo_inv H d (h # t) r \<Longrightarrow> m \<notin> set H \<Longrightarrow> fifo_inv (H @ [m]) d (t @ [m]) (r @ [h])"
  by (rule fifo_append [OF fifo_evict])

lemma fifo_send_array:
  assumes "fifo_inv H (delivered a) (queue a) (resolved a)" and "m \<notin> set H"
  shows "fifo_inv (H @ [m]) (delivered (ArrayMailbox_send a m)) (queue (ArrayMailbox_send a m))
           (resolved (ArrayMailbox_send a m))"
  using fifo_append [OF assms] fifo_resolve [OF assms]
  by (simp add: ArrayMailbox_send_def create_task_def failed_delivery_def resolve_None_def Let_def)

lemma fifo_send_bounded:
  assumes "fifo_inv H (delivered b) (queue b) (resolved b)" and "m \<notin> set H"
  shows "fifo_inv (H @ [m]) (delivered (BoundedMailbox_send b m))
           (queue (BoundedMailbox_send b m)) (resolved (BoundedMailbox_send b m))"
proof (cases "queue b")
  case Nil
  with fifo_append [OF assms] fifo_resolve [OF assms] show ?thesis
    by (cases "overflow_policy b")
      (simp_all add: send_defs create_task_def failed_delivery_def resolve_None_def Let_def)
next
  case (Cons h t)
  with fifo_append [OF assms] fifo_resolve [OF assms] fifo_evict_append [of H _ h t, OF _ assms(2)]
    assms(1)
  show ?thesis
    by (cases "overflow_policy b")
      (simp_all add: send_defs create_task_def failed_delivery_def resolve_None_def Let_def)
qed

lemma fifo_shared:
  assumes "fifo_inv H (delivered s) (queue s) (resolved s)"
  shows "fifo_inv H (delivered (suspend s)) (queue (suspend s)) (resolved (suspend s))"
    and "fifo_inv H (delivered (resume s)) (queue (resume s)) (resolved (resume s))"
    and "fifo_inv H (delivered (close s)) (queue (close s)) (resolved (close s))"
    and "fifo_inv H (delivered (dispatch s)) (queue (dispatch s)) (resolved (dispatch s))"
    and "fifo_inv H (delivered (raise_task i s)) (queue (raise_task i s))
           (resolved (raise_task i s))"
  using assms
  by (simp_all add: suspend_def resume_def close_def dispatch_def raise_task_def
      dispatch_all_finally_def take_task_def create_task_def Let_def split: task.splits)

lemma fifo_run:
  assumes "fifo_inv H (delivered s) (queue s) (resolved s)"
  shows "fifo_inv H (delivered (run_task i s)) (queue (run_task i s)) (resolved (run_task i s))"
proof (cases "queue s")
  case Nil
  with assms show ?thesis
    by (simp add: method_defs Let_def)
next
  case (Cons h t)
  with assms fifo_pop [of H "delivered s" h t "resolved s"] show ?thesis
    by (simp add: method_defs Let_def)
qed

lemma fifo_step:
  assumes "fifo_inv H (delivered s) (queue s) (resolved s)" and "sends [x] = []"
  shows "fifo_inv H (delivered (step sendf x s)) (queue (step sendf x s))
           (resolved (step sendf x s))"
  using assms by (cases x) (simp_all add: fifo_shared fifo_run)

lemma fifo_exec:
  assumes send: "\<And>H s m. fifo_inv H (delivered s) (queue s) (resolved s) \<Longrightarrow> m \<notin> set H \<Longrightarrow>
      fifo_inv (H @ [m]) (delivered (sendf s m)) (queue (sendf s m)) (resolved (sendf s m))"
    and "fifo_inv H (delivered s) (queue s) (resolved s)"
    and "distinct (H @ sends xs)"
  shows "fifo_inv (H @ sends xs) (delivered (exec sendf xs s)) (queue (exec sendf xs s))
           (resolved (exec sendf xs s))"
  using assms(2,3)
proof (induction xs arbitrary: H s)
  case Nil
  then show ?case by simp
next
  case (Cons x xs)
  show ?case
  proof (cases "sends [x]")
    case Nil
    then have eq: "sends (x # xs) = sends xs"
      by (cases x) simp_all
    from Cons.IH [OF fifo_step [OF Cons.prems(1) Nil]] Cons.prems(2) eq
    show ?thesis by simp
  next
    case (Cons m ms)
    then have x: "x = Send m"
      by (cases x) simp_all
    with Cons.prems have "m \<notin> set H" and "distinct ((H @ [m]) @ sends xs)"
      by simp_all
    from Cons.IH [OF send [OF Cons.prems(1) this(1)] this(2)] x show ?thesis
      by simp
  qed
qed

lemma fifo_inv_facts:
  assumes "fifo_inv H d q r"
  shows "d @ q = filter (\<lambda>m. m \<notin> set r) H" and "subseq d H" and "set d \<inter> set r = {}"
proof -
  show eq: "d @ q = filter (\<lambda>m. m \<notin> set r) H"
    using assms by (simp add: fifo_inv_def)
  have "subseq d (d @ q)"
    by (simp add: prefix_imp_subseq)
  with eq show "subseq d H"
    by (metis subseq_filter_left subseq_order.trans)
  have "set d \<subseteq> set (filter (\<lambda>m. m \<notin> set r) H)"
    using eq by (metis set_append Un_upper1)
  then show "set d \<inter> set r = {}"
    by auto
qed

lemma fifo_init:
  "fifo_inv [] (delivered ArrayMailbox_init) (queue ArrayMailbox_init) (resolved ArrayMailbox_init)"
  "fifo_inv [] (delivered (BoundedMailbox_init c p)) (queue (BoundedMailbox_init c p))
     (resolved (BoundedMailbox_init c p))"
  by (simp_all add: fifo_inv_def ArrayMailbox_init_def BoundedMailbox_init_def)

text \<open>
  C2. In every run from a new mailbox of either class in which no message is sent twice,
  the messages delivered so far, followed by the messages in the queue, are the messages
  sent, in the order of the sends, without those the mailbox has resolved with null (the
  sends to the closed mailbox, the messages dropped under DROP_NEWEST and REJECT, which
  were never appended, and the messages evicted under DROP_OLDEST). So the deliveries
  follow the order of the appends, and no message resolved with null, in particular none
  removed by an overflow policy, is delivered.
\<close>

theorem fifo_delivery:
  assumes "distinct (sends xs)"
  shows "delivered (array_run xs) @ queue (array_run xs) =
           filter (\<lambda>m. m \<notin> set (resolved (array_run xs))) (sends xs) \<and>
         subseq (delivered (array_run xs)) (sends xs) \<and>
         set (delivered (array_run xs)) \<inter> set (resolved (array_run xs)) = {} \<and>
         delivered (bounded_run c p xs) @ queue (bounded_run c p xs) =
           filter (\<lambda>m. m \<notin> set (resolved (bounded_run c p xs))) (sends xs) \<and>
         subseq (delivered (bounded_run c p xs)) (sends xs) \<and>
         set (delivered (bounded_run c p xs)) \<inter> set (resolved (bounded_run c p xs)) = {}"
proof -
  have a: "fifo_inv (sends xs) (delivered (array_run xs)) (queue (array_run xs))
             (resolved (array_run xs))"
    using fifo_exec [of ArrayMailbox_send "[]" ArrayMailbox_init xs, OF fifo_send_array fifo_init(1)]
      assms by simp
  have b: "fifo_inv (sends xs) (delivered (bounded_run c p xs)) (queue (bounded_run c p xs))
             (resolved (bounded_run c p xs))"
    using fifo_exec [of BoundedMailbox_send "[]" "BoundedMailbox_init c p" xs,
        OF fifo_send_bounded fifo_init(2)] assms by simp
  from fifo_inv_facts [OF a] fifo_inv_facts [OF b] show ?thesis
    by blast
qed

theorem fifo_delivery_witness:
  "distinct (sends [Suspend, Send (1::nat), Send 2, Send 3, Resume, Run 0, Run 0]) \<and>
   delivered (array_run [Suspend, Send (1::nat), Send 2, Send 3, Resume, Run 0, Run 0]) = [1, 2] \<and>
   queue (array_run [Suspend, Send (1::nat), Send 2, Send 3, Resume, Run 0, Run 0]) = [3] \<and>
   delivered (bounded_run 2 DROP_OLDEST
     [Suspend, Send (1::nat), Send 2, Send 3, Resume, Run 0, Run 0]) = [2, 3] \<and>
   resolved (bounded_run 2 DROP_OLDEST
     [Suspend, Send (1::nat), Send 2, Send 3, Resume, Run 0, Run 0]) = [1] \<and>
   subseq [2, 3] (sends [Suspend, Send (1::nat), Send 2, Send 3, Resume, Run 0, Run 0])"
  using fifo_delivery [of "[Suspend, Send (1::nat), Send 2, Send 3, Resume, Run 0, Run 0]" 2 DROP_OLDEST]
  by (simp add: eval_defs)


section \<open>What becomes of a message sent\<close>

lemma accounted_shared:
  "accounted (suspend s) = accounted s" "accounted (resume s) = accounted s"
  "accounted (close s) = accounted s" "accounted (dispatch s) = accounted s"
  "accounted (dispatch_all_finally s) = accounted s"
  "accounted (take_task i s) = accounted s"
  by (simp_all add: accounted_def method_defs Let_def)

lemma accounted_loop: "accounted (dispatch_all_loop s) = accounted s"
  by (cases "queue s")
    (simp_all add: dispatch_all_loop_def receive_def accounted_shared,
     simp_all add: accounted_def await_deliver_def)

lemma accounted_run: "accounted (run_task i s) = accounted s"
  by (simp add: run_task_def accounted_loop accounted_shared)

lemma accounted_raise: "accounted (raise_task i s) = accounted s"
  by (simp add: raise_task_def accounted_shared split: task.splits)

lemma accounted_send:
  "accounted (ArrayMailbox_send a m) = accounted a + {#m#}"
  "accounted (BoundedMailbox_send b m) = accounted b + {#m#}"
  by (auto simp: accounted_def send_defs create_task_def failed_delivery_def resolve_None_def
      Let_def split: overflow_policy.splits list.splits)

lemma accounted_exec:
  assumes "\<And>s m. accounted (sendf s m) = accounted s + {#m#}"
  shows "accounted (exec sendf xs s) = accounted s + mset (sends xs)"
proof (induction xs arbitrary: s)
  case Nil
  then show ?case by simp
next
  case (Cons x xs)
  then show ?case
    by (cases x) (simp_all add: assms accounted_shared accounted_run accounted_raise)
qed

lemma records_shared:
  "dead_letters (suspend s) = dead_letters s \<and> resolved (suspend s) = resolved s"
  "dead_letters (resume s) = dead_letters s \<and> resolved (resume s) = resolved s"
  "dead_letters (close s) = dead_letters s \<and> resolved (close s) = resolved s"
  "dead_letters (dispatch s) = dead_letters s \<and> resolved (dispatch s) = resolved s"
  "dead_letters (run_task i s) = dead_letters s \<and> resolved (run_task i s) = resolved s"
  "dead_letters (raise_task i s) = dead_letters s \<and> resolved (raise_task i s) = resolved s"
  by (auto simp: method_defs Let_def split: list.splits task.splits)


lemma array_records_step:
  "dead_letters a = resolved a \<Longrightarrow>
   dead_letters (step ArrayMailbox_send x a) = resolved (step ArrayMailbox_send x a)"
  by (cases x)
    (auto simp: records_shared ArrayMailbox_send_def create_task_def failed_delivery_def resolve_None_def Let_def)

lemma records_inv_frame:
  assumes "records_inv b"
    and "dead_letters b' = dead_letters b" "resolved b' = resolved b"
    and "overflow_policy b' = overflow_policy b"
    and "dropped_message_count b' = dropped_message_count b"
  shows "records_inv b'"
  using assms by (simp add: records_inv_def)

lemma bounded_frame:
  "overflow_policy (suspend b) = overflow_policy b \<and>
   dropped_message_count (suspend b) = dropped_message_count b"
  "overflow_policy (resume b) = overflow_policy b \<and>
   dropped_message_count (resume b) = dropped_message_count b"
  "overflow_policy (close b) = overflow_policy b \<and>
   dropped_message_count (close b) = dropped_message_count b"
  "overflow_policy (dispatch b) = overflow_policy b \<and>
   dropped_message_count (dispatch b) = dropped_message_count b"
  "overflow_policy (run_task i b) = overflow_policy b \<and>
   dropped_message_count (run_task i b) = dropped_message_count b"
  "overflow_policy (raise_task i b) = overflow_policy b \<and>
   dropped_message_count (raise_task i b) = dropped_message_count b"
  by (auto simp: method_defs Let_def split: list.splits task.splits)

lemma subseteq_add_mset: "A \<subseteq># B \<Longrightarrow> A \<subseteq># add_mset x B"
  by (auto simp: subseteq_mset_def le_SucI)

lemma records_inv_send: "records_inv b \<Longrightarrow> records_inv (BoundedMailbox_send b m)"
  by (cases "overflow_policy b"; cases "queue b")
    (simp_all add: records_inv_def send_defs create_task_def failed_delivery_def
      resolve_None_def Let_def subseteq_add_mset)

lemma bounded_records_step:
  "records_inv b \<Longrightarrow> records_inv (step BoundedMailbox_send x b)"
  by (cases x)
    (simp_all add: records_inv_send,
     (erule records_inv_frame; simp add: records_shared bounded_frame)+)

lemma step_policy: "overflow_policy (step BoundedMailbox_send x b) = overflow_policy b"
  by (cases x)
    (auto simp: eval_defs split: overflow_policy.splits list.splits task.splits)

text \<open>
  C3 asks for a handler invocation or a dead letter record for every message sent. A
  message dropped under DROP_NEWEST, a message evicted under DROP_OLDEST and a message
  in the queue when \<^verbatim>\<open>close()\<close> is called: in each run below the handler of the message
  is not invoked and the dead letters stay empty, and no step is left that would change
  this (the first two runs end with an empty queue and no task, the third with a closed
  mailbox and no task).
\<close>

theorem dropped_not_dead_lettered_counterexample:
  "bounded_run 1 DROP_NEWEST [Suspend, Send (1::nat), Send 2, Resume, Run 0, Run 0] =
     (BoundedMailbox_init 1 DROP_NEWEST)
       \<lparr>delivered := [1], resolved := [2], dropped_message_count := 1\<rparr> \<and>
   bounded_run 1 DROP_OLDEST [Suspend, Send (1::nat), Send 2, Resume, Run 0, Run 0] =
     (BoundedMailbox_init 1 DROP_OLDEST)
       \<lparr>delivered := [2], resolved := [1], dropped_message_count := 1\<rparr> \<and>
   array_run [Suspend, Send (1::nat), Close, Resume, Run 0, Dispatch] =
     ArrayMailbox_init\<lparr>queue := [1], closed := True\<rparr>"
  by (simp add: eval_defs)

text \<open>
  C3, amended. In every run from a new mailbox of either class, every message sent is,
  counted with its repetitions, in exactly one of three places: among the messages whose
  handler was invoked, in the queue, or among the messages whose completion the mailbox
  resolved with null. The dead letter records are among the latter: for an ArrayMailbox
  and for a BoundedMailbox with the policy REJECT they are the same list (sends to the
  closed mailbox and rejected messages); with DROP_OLDEST or DROP_NEWEST every message
  counted as dropped has a null completion and no record.
\<close>

theorem send_accounting:
  "mset (sends xs) =
     mset (delivered (array_run xs)) + mset (queue (array_run xs)) +
     mset (resolved (array_run xs)) \<and>
   dead_letters (array_run xs) = resolved (array_run xs) \<and>
   mset (sends xs) =
     mset (delivered (bounded_run c p xs)) + mset (queue (bounded_run c p xs)) +
     mset (resolved (bounded_run c p xs)) \<and>
   mset (dead_letters (bounded_run c p xs)) \<subseteq># mset (resolved (bounded_run c p xs)) \<and>
   dead_letters (bounded_run c REJECT xs) = resolved (bounded_run c REJECT xs) \<and>
   int (length (resolved (bounded_run c DROP_OLDEST xs))) =
     int (length (dead_letters (bounded_run c DROP_OLDEST xs))) +
     dropped_message_count (bounded_run c DROP_OLDEST xs) \<and>
   int (length (resolved (bounded_run c DROP_NEWEST xs))) =
     int (length (dead_letters (bounded_run c DROP_NEWEST xs))) +
     dropped_message_count (bounded_run c DROP_NEWEST xs)"
proof -
  have a: "accounted (array_run xs) = mset (sends xs)"
    using accounted_exec [of ArrayMailbox_send xs ArrayMailbox_init, OF accounted_send(1)]
    by (simp add: accounted_def ArrayMailbox_init_def)
  have b: "accounted (bounded_run c p xs) = mset (sends xs)"
    using accounted_exec [of BoundedMailbox_send xs "BoundedMailbox_init c p", OF accounted_send(2)]
    by (simp add: accounted_def BoundedMailbox_init_def)
  have d: "dead_letters (array_run xs) = resolved (array_run xs)"
    by (rule inv_exec [where P = "\<lambda>s. dead_letters s = resolved s"])
      (simp_all add: array_records_step ArrayMailbox_init_def)
  have r: "records_inv (bounded_run c q xs)" for q
  proof (rule inv_exec [where P = records_inv])
    show "records_inv (BoundedMailbox_init c q)"
      by (simp add: records_inv_def BoundedMailbox_init_def)
  qed (rule bounded_records_step)
  have p: "overflow_policy (bounded_run c q xs) = q" for q
  proof (rule inv_exec [where P = "\<lambda>s. overflow_policy s = q"])
    show "overflow_policy (BoundedMailbox_init c q) = q"
      by (simp add: BoundedMailbox_init_def)
  qed (simp add: step_policy)
  show ?thesis
    using a b d r [of p] r [of REJECT] r [of DROP_OLDEST] r [of DROP_NEWEST]
      p [of REJECT] p [of DROP_OLDEST] p [of DROP_NEWEST]
    by (simp add: accounted_def records_inv_def)
qed

section \<open>A task whenever there is work\<close>

lemma busy_shared:
  assumes "busy s"
  shows "busy (suspend s)" and "busy (resume s)" and "busy (close s)" and "busy (dispatch s)"
  using assms one_worker_suspend [of s] one_worker_resume [of s] one_worker_close [of s]
    one_worker_dispatch [of s]
  by (auto simp: busy_def suspend_def resume_def close_def dispatch_def create_task_def
      is_receivable_def Let_def)

lemma finally_work:
  "queue (dispatch_all_finally s) = queue s \<and> suspended (dispatch_all_finally s) = suspended s \<and>
   closed (dispatch_all_finally s) = closed s \<and>
   (queue s = [] \<or> suspended s \<or> closed s \<or> dispatching (dispatch_all_finally s))"
  by (simp add: dispatch_all_finally_def create_task_def is_receivable_def Let_def)

lemma loop_work:
  "dispatching s \<Longrightarrow>
   queue (dispatch_all_loop s) = [] \<or> suspended (dispatch_all_loop s) \<or>
   closed (dispatch_all_loop s) \<or> dispatching (dispatch_all_loop s)"
  using finally_work [of s]
  by (cases "queue s")
    (auto simp: dispatch_all_loop_def receive_def await_deliver_def)

lemma busy_run: "busy s \<Longrightarrow> busy (run_task i s)"
proof -
  assume b: "busy s"
  then have w: "one_worker (run_task i s)"
    by (simp add: busy_def one_worker_run)
  show ?thesis
  proof (cases "i < length (tasks s)")
    case True
    with b one_worker_tasks [of s i] have "dispatching (take_task i s)"
      by (simp add: busy_def take_task_def)
    from loop_work [OF this] True w show ?thesis
      by (simp add: busy_def run_task_def)
  next
    case False
    with b show ?thesis by (simp add: run_task_def)
  qed
qed

lemma busy_raise: "busy s \<Longrightarrow> busy (raise_task i s)"
proof -
  assume b: "busy s"
  then have w: "one_worker (raise_task i s)"
    by (simp add: busy_def one_worker_raise)
  from b finally_work [of "take_task i s"] w show ?thesis
    by (auto simp: busy_def raise_task_def take_task_def split: task.splits)
qed

lemma busy_send_array: "busy a \<Longrightarrow> busy (ArrayMailbox_send a m)"
  using one_worker_ArrayMailbox_send [of a m]
  by (auto simp: busy_def ArrayMailbox_send_def create_task_def failed_delivery_def
      resolve_None_def Let_def)

lemma busy_send_bounded:
  "1 \<le> capacity b \<Longrightarrow> busy b \<Longrightarrow> busy (BoundedMailbox_send b m)"
  using one_worker_BoundedMailbox_send [of b m]
  by (cases "overflow_policy b"; cases "queue b")
    (auto simp: busy_def send_defs create_task_def failed_delivery_def resolve_None_def Let_def)

lemma busy_step_array: "busy a \<Longrightarrow> busy (step ArrayMailbox_send x a)"
  by (cases x) (simp_all add: busy_shared busy_run busy_raise busy_send_array)

lemma busy_step_bounded:
  assumes "1 \<le> capacity b \<and> busy b"
  shows "1 \<le> capacity (step BoundedMailbox_send x b) \<and> busy (step BoundedMailbox_send x b)"
proof -
  have "busy (step BoundedMailbox_send x b)"
    using assms
    by (cases x) (simp_all add: busy_shared busy_run busy_raise busy_send_bounded)
  with step_capacity [of x b] assms show ?thesis
    by simp
qed

lemma busy_tasks:
  "busy s \<Longrightarrow> queue s \<noteq> [] \<Longrightarrow> \<not> suspended s \<Longrightarrow> \<not> closed s \<Longrightarrow> length (tasks s) = 1"
  by (auto simp: busy_def one_worker_def)

lemma send_keeps_dispatching: "dispatching b \<Longrightarrow> dispatching (BoundedMailbox_send b m)"
  by (cases "overflow_policy b"; cases "queue b")
    (auto simp: send_defs create_task_def failed_delivery_def resolve_None_def Let_def)

text \<open>
  The bound on the capacity is needed. With capacity 0 and DROP_OLDEST the queue of the
  new mailbox is empty and at capacity, and the branch of \<^verbatim>\<open>_handle_overflow\<close> for the
  empty queue appends the message without creating a task, where the append in \<^verbatim>\<open>send\<close>
  creates one: the message is queued in a mailbox that is neither suspended nor closed,
  and no task exists until \<^verbatim>\<open>resume()\<close> or \<^verbatim>\<open>dispatch()\<close> is called.
\<close>

lemma zero_capacity_append_without_task:
  "BoundedMailbox_send (BoundedMailbox_init 0 DROP_OLDEST) m =
     (BoundedMailbox_init 0 DROP_OLDEST)\<lparr>queue := [m]\<rparr>"
  "tasks (bounded_run 0 DROP_OLDEST [Send m]) = []"
  "tasks (bounded_run 0 DROP_OLDEST [Send m, Dispatch]) = [Created]"
  by (simp_all add: eval_defs)

text \<open>
  C5 asks for no worker in every state other than one of a non-empty queue, not suspended
  and not closed. After a send to a new ArrayMailbox and one step of the dispatch task,
  the queue is empty and the task, which awaits the handler of the message it took, is
  still there: a dispatch worker is active in a state that is not one of a non-empty
  queue.
\<close>

theorem worker_without_work_counterexample:
  "queue (array_run [Send (1::nat), Run 0]) = [] \<and>
   \<not> suspended (array_run [Send (1::nat), Run 0]) \<and>
   \<not> closed (array_run [Send (1::nat), Run 0]) \<and>
   tasks (array_run [Send (1::nat), Run 0]) = [Awaiting 1] \<and>
   length (tasks (array_run [Send (1::nat), Run 0])) = 1"
  by (simp add: eval_defs)

text \<open>
  C5, amended. In every state a run reaches from a new ArrayMailbox, or from a new
  BoundedMailbox with capacity at least 1, at most one dispatch worker is active, and
  exactly one is active when the queue is not empty and the mailbox is neither suspended
  nor closed. (A worker may be active in other states too: while the handler of the last
  message runs, or before it has seen a suspend or close.) In particular, after a send
  to a full BoundedMailbox with capacity at least 1 that is neither suspended nor closed,
  exactly one worker is active.
\<close>

theorem worker_when_work:
  "length (tasks (array_run xs)) \<le> 1 \<and>
   (queue (array_run xs) \<noteq> [] \<and> \<not> suspended (array_run xs) \<and> \<not> closed (array_run xs) \<longrightarrow>
    length (tasks (array_run xs)) = 1) \<and>
   length (tasks (bounded_run c p xs)) \<le> 1 \<and>
   (1 \<le> c \<and> queue (bounded_run c p xs) \<noteq> [] \<and> \<not> suspended (bounded_run c p xs) \<and>
    \<not> closed (bounded_run c p xs) \<longrightarrow>
    length (tasks (bounded_run c p xs)) = 1) \<and>
   (1 \<le> c \<and> is_full (bounded_run c p xs) \<and> \<not> suspended (bounded_run c p xs) \<and>
    \<not> closed (bounded_run c p xs) \<longrightarrow>
    length (tasks (BoundedMailbox_send (bounded_run c p xs) m)) = 1)"
proof -
  have a: "busy (array_run xs)"
  proof (rule inv_exec [where P = busy])
    show "busy ArrayMailbox_init"
      by (simp add: busy_def one_worker_def ArrayMailbox_init_def)
  qed (rule busy_step_array)
  have b: "1 \<le> capacity (bounded_run c p xs) \<and> busy (bounded_run c p xs)" if "1 \<le> c"
  proof (rule inv_exec [where P = "\<lambda>s. 1 \<le> capacity s \<and> busy s"])
    show "1 \<le> capacity (BoundedMailbox_init c p) \<and> busy (BoundedMailbox_init c p)"
      using that by (simp add: busy_def one_worker_def BoundedMailbox_init_def)
  qed (rule busy_step_bounded)
  have w: "one_worker (bounded_run c p xs)"
    by (rule one_worker_exec, rule one_worker_BoundedMailbox_send, assumption,
        rule one_worker_init)
  have f: "length (tasks (BoundedMailbox_send (bounded_run c p xs) m)) = 1"
    if "1 \<le> c" "is_full (bounded_run c p xs)" "\<not> suspended (bounded_run c p xs)"
      "\<not> closed (bounded_run c p xs)"
  proof -
    from b [OF that(1)] that(2) have "queue (bounded_run c p xs) \<noteq> []"
      by (auto simp: is_full_def)
    with b [OF that(1)] that(3,4) have "dispatching (bounded_run c p xs)"
      by (auto simp: busy_def)
    then have "dispatching (BoundedMailbox_send (bounded_run c p xs) m)"
      by (rule send_keeps_dispatching)
    with one_worker_BoundedMailbox_send [OF w, of m] show ?thesis
      by (simp add: one_worker_def)
  qed
  have a1: "length (tasks (array_run xs)) \<le> 1"
    using a one_worker_le [of "array_run xs"] by (simp add: busy_def)
  have a2: "length (tasks (array_run xs)) = 1"
    if "queue (array_run xs) \<noteq> [] \<and> \<not> suspended (array_run xs) \<and> \<not> closed (array_run xs)"
    using busy_tasks [OF a] that by simp
  have b1: "length (tasks (bounded_run c p xs)) \<le> 1"
    using w by (rule one_worker_le)
  have b2: "length (tasks (bounded_run c p xs)) = 1"
    if "1 \<le> c \<and> queue (bounded_run c p xs) \<noteq> [] \<and> \<not> suspended (bounded_run c p xs) \<and>
        \<not> closed (bounded_run c p xs)"
    using b busy_tasks [of "bounded_run c p xs"] that by simp
  from a1 a2 b1 b2 f show ?thesis
    by blast
qed

theorem worker_when_work_witness:
  "queue (array_run [Send (1::nat), Send 2]) \<noteq> [] \<and>
   \<not> suspended (array_run [Send (1::nat), Send 2]) \<and>
   \<not> closed (array_run [Send (1::nat), Send 2]) \<and>
   length (tasks (array_run [Send (1::nat), Send 2])) = 1 \<and>
   (1::int) \<le> 1 \<and>
   queue (bounded_run 1 DROP_OLDEST [Send (1::nat)]) \<noteq> [] \<and>
   is_full (bounded_run 1 DROP_OLDEST [Send (1::nat)]) \<and>
   \<not> suspended (bounded_run 1 DROP_OLDEST [Send (1::nat)]) \<and>
   \<not> closed (bounded_run 1 DROP_OLDEST [Send (1::nat)]) \<and>
   length (tasks (bounded_run 1 DROP_OLDEST [Send (1::nat)])) = 1 \<and>
   length (tasks (BoundedMailbox_send (bounded_run 1 DROP_OLDEST [Send (1::nat)]) 2)) = 1"
  using worker_when_work [of "[Send (1::nat), Send 2]" 1 DROP_OLDEST 2]
    worker_when_work [of "[Send (1::nat)]" 1 DROP_OLDEST 2]
  by (simp add: eval_defs is_full_def)

section \<open>Suspend and resume\<close>

lemma run_pop:
  assumes "tasks s = [t]" and "\<not> suspended s" and "\<not> closed s" and "queue s = h # q"
  shows "run_task 0 s =
           s\<lparr>queue := q, delivered := delivered s @ [h], tasks := [Awaiting h]\<rparr>"
  using assms by (simp add: method_defs)

lemma run_empty:
  assumes "tasks s = [t]" and "queue s = []"
  shows "run_task 0 s = s\<lparr>tasks := [], dispatching := False\<rparr>"
  using assms by (simp add: method_defs Let_def)

lemma run_idle: "tasks s = [] \<Longrightarrow> run_task 0 s = s"
  by (simp add: run_task_def)

lemma drain_queue:
  assumes "queue s = q" and "\<not> suspended s" and "\<not> closed s"
    and "tasks s = [t] \<or> (tasks s = [] \<and> q = [] \<and> \<not> dispatching s)"
  shows "exec sendf (replicate (Suc (length q)) (Run 0)) s =
           s\<lparr>queue := [], delivered := delivered s @ q, tasks := [], dispatching := False\<rparr>"
  using assms
proof (induction q arbitrary: s t)
  case Nil
  then show ?case
    by (cases s) (auto simp: run_empty run_idle)
next
  case (Cons h q)
  then have t: "tasks s = [t]"
    by simp
  let ?s = "s\<lparr>queue := q, delivered := delivered s @ [h], tasks := [Awaiting h]\<rparr>"
  have "exec sendf (replicate (Suc (length q)) (Run 0)) ?s =
          ?s\<lparr>queue := [], delivered := delivered ?s @ q, tasks := [], dispatching := False\<rparr>"
    using Cons.prems by (intro Cons.IH [where t = "Awaiting h"]) simp_all
  with run_pop [OF t Cons.prems(2,3)] Cons.prems(1) show ?case
    by simp
qed

lemma suspended_step:
  assumes "suspended s" and "x \<noteq> Resume" and "sends [x] = []"
  shows "suspended (step sendf x s) \<and> delivered (step sendf x s) = delivered s \<and>
         queue (step sendf x s) = queue s \<and> (closed (step sendf x s) \<longrightarrow> closed s \<or> x = Close) \<and>
         resolved (step sendf x s) = resolved s \<and> dead_letters (step sendf x s) = dead_letters s \<and>
         array_mailbox.more (step sendf x s) = array_mailbox.more s"
  using assms by (cases x) (auto simp: method_defs Let_def split: task.splits)

lemma suspended_array:
  assumes "suspended a" and "\<not> closed a" and "Resume \<notin> set xs" and "Close \<notin> set xs"
  shows "suspended (exec ArrayMailbox_send xs a) \<and> \<not> closed (exec ArrayMailbox_send xs a) \<and>
         delivered (exec ArrayMailbox_send xs a) = delivered a \<and>
         queue (exec ArrayMailbox_send xs a) = queue a @ sends xs"
  using assms
proof (induction xs arbitrary: a)
  case Nil
  then show ?case by simp
next
  case (Cons x xs)
  show ?case
  proof (cases "sends [x]")
    case Nil
    then have eq: "sends (x # xs) = sends xs"
      by (cases x) simp_all
    from suspended_step [OF Cons.prems(1) _ Nil, of ArrayMailbox_send] Cons.prems
    have "suspended (step ArrayMailbox_send x a) \<and> \<not> closed (step ArrayMailbox_send x a) \<and>
          delivered (step ArrayMailbox_send x a) = delivered a \<and>
          queue (step ArrayMailbox_send x a) = queue a"
      by auto
    with Cons.IH [of "step ArrayMailbox_send x a"] Cons.prems eq show ?thesis
      by simp
  next
    case (Cons m ms)
    then have x: "x = Send m"
      by (cases x) simp_all
    from Cons.prems have "ArrayMailbox_send a m = a\<lparr>queue := queue a @ [m]\<rparr>"
      by (simp add: ArrayMailbox_send_def)
    with Cons.IH [of "ArrayMailbox_send a m"] Cons.prems x show ?thesis
      by simp
  qed
qed

lemma suspended_bounded:
  assumes "suspended b" and "\<not> closed b" and "Resume \<notin> set xs" and "Close \<notin> set xs"
    and "int (length (queue b)) + int (length (sends xs)) \<le> capacity b"
  shows "suspended (exec BoundedMailbox_send xs b) \<and> \<not> closed (exec BoundedMailbox_send xs b) \<and>
         delivered (exec BoundedMailbox_send xs b) = delivered b \<and>
         queue (exec BoundedMailbox_send xs b) = queue b @ sends xs \<and>
         dropped_message_count (exec BoundedMailbox_send xs b) = dropped_message_count b"
  using assms
proof (induction xs arbitrary: b)
  case Nil
  then show ?case by simp
next
  case (Cons x xs)
  show ?case
  proof (cases "sends [x]")
    case Nil
    then have eq: "sends (x # xs) = sends xs"
      by (cases x) simp_all
    from suspended_step [OF Cons.prems(1) _ Nil, of BoundedMailbox_send] Cons.prems
    have s: "suspended (step BoundedMailbox_send x b) \<and> \<not> closed (step BoundedMailbox_send x b) \<and>
          delivered (step BoundedMailbox_send x b) = delivered b \<and>
          queue (step BoundedMailbox_send x b) = queue b \<and>
          array_mailbox.more (step BoundedMailbox_send x b) = array_mailbox.more b"
      by auto
    then have "dropped_message_count (step BoundedMailbox_send x b) = dropped_message_count b \<and>
          capacity (step BoundedMailbox_send x b) = capacity b"
      using more_dropped by blast
    with s Cons.IH [of "step BoundedMailbox_send x b"] Cons.prems eq show ?thesis
      by simp
  next
    case (Cons m ms)
    then have x: "x = Send m"
      by (cases x) simp_all
    from Cons.prems x have "BoundedMailbox_send b m = b\<lparr>queue := queue b @ [m]\<rparr>"
      by (simp add: BoundedMailbox_send_def)
    with Cons.IH [of "BoundedMailbox_send b m"] Cons.prems x show ?thesis
      by simp
  qed
qed

lemma resume_drain:
  assumes "one_worker s" and "suspended s" and "\<not> closed s"
  shows "\<not> suspended (resume s) \<and>
         tasks (resume s) =
           (if queue s \<noteq> [] \<and> \<not> dispatching s then tasks s @ [Created] else tasks s) \<and>
         (queue s = [] \<or> (dispatching (resume s) \<and> length (tasks (resume s)) = 1)) \<and>
         exec sendf (replicate (Suc (length (queue s))) (Run 0)) (resume s) =
           (resume s)\<lparr>queue := [], delivered := delivered s @ queue s, tasks := [],
             dispatching := False\<rparr>"
proof -
  have w: "one_worker (resume s)"
    using assms(1) by (rule one_worker_resume)
  have f: "\<not> suspended (resume s)" "\<not> closed (resume s)" "queue (resume s) = queue s"
    "delivered (resume s) = delivered s"
    "tasks (resume s) =
       (if queue s \<noteq> [] \<and> \<not> dispatching s then tasks s @ [Created] else tasks s)"
    "queue s = [] \<or> dispatching (resume s)"
    using assms(3) by (simp_all add: resume_def create_task_def is_receivable_def Let_def)
  have t: "(\<exists>t. tasks (resume s) = [t]) \<or>
           (tasks (resume s) = [] \<and> queue s = [] \<and> \<not> dispatching (resume s))"
    using w f(6) by (cases "tasks (resume s)") (auto simp: one_worker_def split: if_splits)
  then have "exec sendf (replicate (Suc (length (queue s))) (Run 0)) (resume s) =
      (resume s)\<lparr>queue := [], delivered := delivered (resume s) @ queue s, tasks := [],
        dispatching := False\<rparr>"
    using drain_queue [OF f(3) f(1) f(2), of _ sendf] by blast
  moreover have "queue s = [] \<or> length (tasks (resume s)) = 1"
    using w f(6) by (auto simp: one_worker_def)
  ultimately show ?thesis
    using f by auto
qed

text \<open>
  C6 speaks of every mailbox. A BoundedMailbox with capacity 2 and DROP_NEWEST,
  suspended, then sent three messages: the queue holds the first two only, and after
  resume and the steps of the dispatch task the handler was invoked for those two, the
  third has a null completion, and the queue and the task list are empty.
\<close>

theorem bounded_overflow_while_suspended_counterexample:
  "queue (bounded_run 2 DROP_NEWEST [Suspend, Send (1::nat), Send 2, Send 3]) = [1, 2] \<and>
   mailbox_size (bounded_run 2 DROP_NEWEST [Suspend, Send (1::nat), Send 2, Send 3]) = 2 \<and>
   bounded_run 2 DROP_NEWEST
     [Suspend, Send (1::nat), Send 2, Send 3, Resume, Run 0, Run 0, Run 0] =
     (BoundedMailbox_init 2 DROP_NEWEST)
       \<lparr>delivered := [1, 2], resolved := [3], dropped_message_count := 1\<rparr>"
  by (simp add: eval_defs mailbox_size_def)

text \<open>
  C6, amended. Take a mailbox in a state \<open>A\<close> a run has reached, not closed, call
  \<^verbatim>\<open>suspend()\<close> and let any steps follow except \<^verbatim>\<open>resume()\<close> and \<^verbatim>\<open>close()\<close>: \<open>k\<close> sends,
  and between them calls of suspend and dispatch and steps of dispatch tasks. For an
  ArrayMailbox, and for a BoundedMailbox whose capacity has room for the \<open>k\<close> messages
  beside those already queued: no handler is invoked in these steps, and the \<open>k\<close> messages
  are appended to the queue (from a new mailbox: no invocation at all, size \<open>k\<close>).
  \<^verbatim>\<open>resume()\<close> then clears the suspended flag and creates a dispatch task when the queue
  is not empty and no task exists, so that exactly one exists when the queue is not
  empty; and when that task is run once more than there are messages in the queue, with
  the handlers returning and no other call between, every queued message has been
  delivered, in order, the queue is empty and no task is left.
\<close>

theorem suspend_buffers_resume_drains:
  fixes pre xs :: "'m op list" and c :: int and p :: overflow_policy
  defines "A \<equiv> array_run pre"
    and "A1 \<equiv> exec ArrayMailbox_send xs (suspend (array_run pre))"
    and "B \<equiv> bounded_run c p pre"
    and "B1 \<equiv> exec BoundedMailbox_send xs (suspend (bounded_run c p pre))"
  shows
    "(\<not> closed A \<and> Resume \<notin> set xs \<and> Close \<notin> set xs \<longrightarrow>
        delivered A1 = delivered A \<and>
        queue A1 = queue A @ sends xs \<and>
        mailbox_size A1 = mailbox_size A + length (sends xs) \<and>
        \<not> suspended (resume A1) \<and>
        tasks (resume A1) =
          (if queue A1 \<noteq> [] \<and> \<not> dispatching A1 then tasks A1 @ [Created] else tasks A1) \<and>
        (queue A1 = [] \<or> (dispatching (resume A1) \<and> length (tasks (resume A1)) = 1)) \<and>
        exec ArrayMailbox_send (replicate (Suc (mailbox_size A1)) (Run 0)) (resume A1) =
          (resume A1)\<lparr>queue := [], delivered := delivered A @ queue A @ sends xs, tasks := [],
            dispatching := False\<rparr>) \<and>
     (\<not> closed B \<and> Resume \<notin> set xs \<and> Close \<notin> set xs \<and>
      int (mailbox_size B) + int (length (sends xs)) \<le> c \<longrightarrow>
        delivered B1 = delivered B \<and>
        queue B1 = queue B @ sends xs \<and>
        mailbox_size B1 = mailbox_size B + length (sends xs) \<and>
        dropped_message_count B1 = dropped_message_count B \<and>
        \<not> suspended (resume B1) \<and>
        tasks (resume B1) =
          (if queue B1 \<noteq> [] \<and> \<not> dispatching B1 then tasks B1 @ [Created] else tasks B1) \<and>
        (queue B1 = [] \<or> (dispatching (resume B1) \<and> length (tasks (resume B1)) = 1)) \<and>
        exec BoundedMailbox_send (replicate (Suc (mailbox_size B1)) (Run 0)) (resume B1) =
          (resume B1)\<lparr>queue := [], delivered := delivered B @ queue B @ sends xs, tasks := [],
            dispatching := False\<rparr>)"
  (is "(?PA \<longrightarrow> ?QA) \<and> (?PB \<longrightarrow> ?QB)")
proof -
  have qa: ?QA if pa: ?PA
  proof -
    have "A1 = array_run (pre @ Suspend # xs)"
      by (simp add: A1_def exec_append)
    then have w: "one_worker A1"
      by (simp only: one_worker_runs)
    have s: "suspended A1 \<and> \<not> closed A1 \<and> delivered A1 = delivered A \<and>
             queue A1 = queue A @ sends xs"
      using suspended_array [of "suspend A" xs] pa
      by (simp add: A1_def A_def suspend_def)
    then have q: "delivered A1 = delivered A" "queue A1 = queue A @ sends xs"
      by simp_all
    have r: "\<not> suspended (resume A1)"
      "tasks (resume A1) =
         (if queue A1 \<noteq> [] \<and> \<not> dispatching A1 then tasks A1 @ [Created] else tasks A1)"
      "queue A1 = [] \<or> (dispatching (resume A1) \<and> length (tasks (resume A1)) = 1)"
      "exec ArrayMailbox_send (replicate (Suc (length (queue A1))) (Run 0)) (resume A1) =
         (resume A1)\<lparr>queue := [], delivered := delivered A1 @ queue A1, tasks := [],
           dispatching := False\<rparr>"
      using resume_drain [OF w, of ArrayMailbox_send] s by blast+
    have d: "delivered A1 @ queue A1 = delivered A @ queue A @ sends xs"
      using q by simp
    have m: "length (queue A1) = length (queue A) + length (sends xs)"
      using q by simp
    from q r m show ?thesis
      unfolding mailbox_size_def d by blast
  qed
  have qb: ?QB if pb: ?PB
  proof -
    have "B1 = bounded_run c p (pre @ Suspend # xs)"
      by (simp add: B1_def exec_append)
    then have w: "one_worker B1"
      by (simp only: one_worker_runs)
    have cap: "capacity B = c"
      using exec_size [of "BoundedMailbox_init c p" pre]
      by (simp add: B_def BoundedMailbox_init_def)
    have s: "suspended B1 \<and> \<not> closed B1 \<and> delivered B1 = delivered B \<and>
             queue B1 = queue B @ sends xs \<and>
             dropped_message_count B1 = dropped_message_count B"
      using suspended_bounded [of "suspend B" xs] pb cap
      by (simp add: B1_def B_def suspend_def mailbox_size_def)
    then have q: "delivered B1 = delivered B" "queue B1 = queue B @ sends xs"
        "dropped_message_count B1 = dropped_message_count B"
      by simp_all
    have r: "\<not> suspended (resume B1)"
      "tasks (resume B1) =
         (if queue B1 \<noteq> [] \<and> \<not> dispatching B1 then tasks B1 @ [Created] else tasks B1)"
      "queue B1 = [] \<or> (dispatching (resume B1) \<and> length (tasks (resume B1)) = 1)"
      "exec BoundedMailbox_send (replicate (Suc (length (queue B1))) (Run 0)) (resume B1) =
         (resume B1)\<lparr>queue := [], delivered := delivered B1 @ queue B1, tasks := [],
           dispatching := False\<rparr>"
      using resume_drain [OF w, of BoundedMailbox_send] s by blast+
    have d: "delivered B1 @ queue B1 = delivered B @ queue B @ sends xs"
      using q by simp
    have m: "length (queue B1) = length (queue B) + length (sends xs)"
      using q by simp
    from q r m show ?thesis
      unfolding mailbox_size_def d by blast
  qed
  from qa qb show ?thesis
    by blast
qed

theorem suspend_buffers_resume_drains_witness:
  "\<not> closed (array_run ([] :: nat op list)) \<and>
   Resume \<notin> set [Send (1::nat), Dispatch, Send 2, Run 0] \<and>
   Close \<notin> set [Send (1::nat), Dispatch, Send 2, Run 0] \<and>
   \<not> closed (bounded_run 2 DROP_OLDEST ([] :: nat op list)) \<and>
   int (mailbox_size (bounded_run 2 DROP_OLDEST ([] :: nat op list))) +
     int (length (sends [Send (1::nat), Dispatch, Send 2, Run 0])) \<le> 2 \<and>
   delivered (array_run [Suspend, Send (1::nat), Dispatch, Send 2, Run 0]) = [] \<and>
   queue (array_run [Suspend, Send (1::nat), Dispatch, Send 2, Run 0]) = [1, 2] \<and>
   tasks (array_run [Suspend, Send (1::nat), Dispatch, Send 2, Run 0, Resume]) = [Created] \<and>
   delivered (array_run
     [Suspend, Send (1::nat), Dispatch, Send 2, Run 0, Resume, Run 0, Run 0, Run 0]) = [1, 2] \<and>
   delivered (bounded_run 2 DROP_OLDEST
     [Suspend, Send (1::nat), Dispatch, Send 2, Run 0, Resume, Run 0, Run 0, Run 0]) = [1, 2] \<and>
   queue (bounded_run 2 DROP_OLDEST
     [Suspend, Send (1::nat), Dispatch, Send 2, Run 0, Resume, Run 0, Run 0, Run 0]) = []"
  using suspend_buffers_resume_drains [of "[]" "[Send (1::nat), Dispatch, Send 2, Run 0]" 2 DROP_OLDEST]
  by (simp add: eval_defs mailbox_size_def)


end
